theory Spec2Isabelle
  imports Main "HOL-Library.Multiset"
begin

section \<open>Events observed on one thread\<close>

text \<open>
  Every operation of the two engines is embedded as a function from the engine state to
  the new state together with the ordered list of the effects the calling thread performs:
  taking and releasing the engine mutex, waiting on and signalling the condition variable,
  and the calls into the task protocol (\<open>task_execute\<close>, \<open>task_abandone\<close>,
  \<open>task_release\<close>). \<open>Wait\<close> is the point where a condition-variable wait gives the
  mutex up, \<open>Wake\<close> the point where it has it again.
\<close>

datatype 't event =
    Lock | Unlock | Wait | Wake | WaitUntil int
  | NotifyOne | NotifyAll
  | Execute 't | Abandon 't | Release 't
  | ReleaseBridge nat
  | StopRequest nat | WaitWorker nat | Join nat | JoinThread

datatype error = UndefinedBehaviour | AssertionFailed | Blocked

fun executed :: "'t event list \<Rightarrow> 't list" where
  "executed [] = []"
| "executed (Execute t # es) = t # executed es"
| "executed (e # es) = executed es"


text \<open>
  \<open>outside_lock h es\<close>: starting with the mutex held (\<open>h\<close>) or not, no \<open>Execute\<close> and
  no \<open>Abandon\<close> of \<open>es\<close> happens while the thread holds the mutex.
\<close>

fun outside_lock :: "bool \<Rightarrow> 't event list \<Rightarrow> bool" where
  "outside_lock h [] = True"
| "outside_lock h (Lock # es) = outside_lock True es"
| "outside_lock h (Wake # es) = outside_lock True es"
| "outside_lock h (Unlock # es) = outside_lock False es"
| "outside_lock h (Wait # es) = outside_lock False es"
| "outside_lock h (WaitUntil d # es) = outside_lock False es"
| "outside_lock h (Execute t # es) = (\<not> h \<and> outside_lock h es)"
| "outside_lock h (Abandon t # es) = (\<not> h \<and> outside_lock h es)"
| "outside_lock h (e # es) = outside_lock h es"

section \<open>Threaded scheduler\<close>

subsection \<open>Clock values\<close>

text \<open>
  A \<open>time_point\<close> is the tick count of \<open>std::chrono::steady_clock\<close>. The largest count of
  the clock's duration representation, \<open>duration::max().count()\<close>, belongs to the
  standard library and is a parameter \<open>dmax\<close>; \<open>int64_max\<close> is its value where the
  representation is a signed 64-bit integer. \<open>cpp_div\<close> is C++ integer division, which
  truncates towards zero.
\<close>

type_synonym time_point = int

definition cpp_div :: "int \<Rightarrow> int \<Rightarrow> int" where
  "cpp_div a b = sgn a * sgn b * (\<bar>a\<bar> div \<bar>b\<bar>)"

definition int64_max :: int where
  "int64_max = 2 ^ 63 - 1"

definition max_timepoint :: "int \<Rightarrow> time_point" where
  "max_timepoint dmax = cpp_div dmax 2"

subsection \<open>The queue\<close>

record stask =
  s_id :: nat
  point :: time_point

definition entry_comparer :: "stask \<Rightarrow> stask \<Rightarrow> bool" where
  "entry_comparer t1 t2 = (point t1 > point t2)"

text \<open>
  \<open>m_queue\<close> is a \<open>std::priority_queue\<close> ordered by \<open>entry_comparer\<close>. The container is
  the standard library's; it is modelled by the list of its elements, with \<open>top\<close> an
  element that the comparer puts before no other one and \<open>pop\<close> removing that element.
  \<open>top\<close> is only defined on a non-empty queue, and every caller tests \<open>empty()\<close> first, as
  the source does.
\<close>

fun top :: "stask list \<Rightarrow> stask" where
  "top [x] = x"
| "top (x # xs) = (let m = top xs in if entry_comparer x m then m else x)"

definition pop :: "stask list \<Rightarrow> stask list" where
  "pop q = remove1 (top q) q"

definition next_in :: "int \<Rightarrow> stask list \<Rightarrow> time_point" where
  "next_in dmax q = (if q = [] then max_timepoint dmax else point (top q))"

lemma top_in_set: "q \<noteq> [] \<Longrightarrow> top q \<in> set q"
  by (induction q rule: top.induct) (auto simp: Let_def)

lemma length_pop: "q \<noteq> [] \<Longrightarrow> length (pop q) < length q"
  by (simp add: pop_def length_remove1 top_in_set)


subsection \<open>The scheduler thread\<close>

text \<open>
  Modelled from the spec: \<open>submit\<close> of the scheduler is declared in a header that is not
  part of the sources at hand; it pushes the task into the heap under the mutex. What
  another thread (or the task that is running) can do to \<open>m_queue\<close> while the scheduler
  thread does not hold the mutex is a \<open>sched_op\<close>: \<open>Push\<close> is such a \<open>submit\<close>, \<open>MoveOut\<close>
  is \<open>clear\<close>, which moves the queue out and leaves it empty.
\<close>

datatype sched_op = Push stask | MoveOut

fun sched_step :: "sched_op \<Rightarrow> stask list \<Rightarrow> stask list" where
  "sched_step (Push t) q = q @ [t]"
| "sched_step MoveOut q = []"

definition interfere :: "sched_op list \<Rightarrow> stask list \<Rightarrow> stask list" where
  "interfere ops q = fold sched_step ops q"

fun first_ops :: "sched_op list list \<Rightarrow> sched_op list" where
  "first_ops [] = []"
| "first_ops (ops # env) = ops"

lemma length_interfere: "length (interfere ops q) \<le> length q + length ops"
  unfolding interfere_def
proof (induction ops arbitrary: q)
  case Nil
  then show ?case by simp
next
  case (Cons op ops)
  have "length (sched_step op q) \<le> Suc (length q)" by (cases op) auto
  with Cons[of "sched_step op q"] show ?case by simp
qed

text \<open>
  One pass of \<open>run_passed_events\<close> with the clock sampled once (\<open>now\<close>), on the queue \<open>q\<close>
  that the first round finds. Each round takes the mutex; on an empty queue it returns,
  on a top that lies in the future it leaves the loop, otherwise it pops the top,
  releases the mutex and executes the item. While the item runs the mutex is free:
  \<open>env\<close> gives, round after round, what the other threads do to the queue before the
  next round takes the mutex again (nothing once \<open>env\<close> is used up). The second
  component of the result is the queue as the last round leaves it.
\<close>

function run_passed_events ::
  "time_point \<Rightarrow> sched_op list list \<Rightarrow> stask list \<Rightarrow> stask event list \<times> stask list" where
  "run_passed_events now env q =
     (if q = [] then ([Lock, Unlock], q)
      else if now < point (top q) then ([Lock, Unlock], q)
      else (case run_passed_events now (tl env) (interfere (first_ops env) (pop q)) of
              (tr, q') \<Rightarrow> ([Lock, Unlock, Execute (top q)] @ tr, q')))"
  by pat_completeness auto
termination
proof (relation "measure (\<lambda>(now, env, q). length q + sum_list (map length env))", goal_cases)
  case 1
  then show ?case by simp
next
  case (2 now env q)
  have "length (interfere (first_ops env) (pop q)) \<le> length (pop q) + length (first_ops env)"
    by (rule length_interfere)
  moreover have "length (pop q) < length q" using 2 by (simp add: length_pop)
  moreover have "length (first_ops env) + sum_list (map length (tl env)) = sum_list (map length env)"
    by (cases env) auto
  ultimately show ?case by simp
qed

declare run_passed_events.simps [simp del]

text \<open>
  The loop \<open>while (!queue.empty()) { queue.top()->task_abandone(); queue.pop(); }\<close>, which
  \<open>clear\<close> runs on the queue it moved out and the destructor on \<open>m_queue\<close> itself.
\<close>

function abandon_all :: "stask list \<Rightarrow> stask event list" where
  "abandon_all q = (if q = [] then [] else Abandon (top q) # abandon_all (pop q))"
  by pat_completeness auto
termination
  by (relation "measure length") (auto simp: length_pop)

declare abandon_all.simps [simp del]

record scheduler =
  m_queue :: "stask list"
  m_stopped :: bool

definition sched_clear :: "scheduler \<Rightarrow> scheduler \<times> stask event list" where
  "sched_clear s =
     (s\<lparr>m_queue := []\<rparr>, [Lock, Unlock] @ abandon_all (m_queue s) @ [NotifyOne])"

definition sched_dtor :: "scheduler \<Rightarrow> scheduler \<times> stask event list" where
  "sched_dtor s =
     (s\<lparr>m_stopped := True, m_queue := []\<rparr>,
      [Lock] @ abandon_all (m_queue s) @ [Unlock, NotifyOne, JoinThread])"

text \<open>
  The scheduler thread. Each round of \<open>thread_func\<close> runs one pass, takes the mutex,
  returns when \<open>m_stopped\<close> is set and otherwise sleeps in \<open>wait_until\<close> up to
  \<open>next_in\<close>. What the thread finds at each round is decided by the other threads and is
  the input \<open>obs\<close>: the clock value it samples, what happens to the queue during the
  pass, the queue the pass starts on, what happens to the queue between the pass and
  the moment the thread takes the mutex again, and the \<open>m_stopped\<close> flag it then reads.
  When \<open>obs\<close> ends the thread is still asleep.
\<close>

fun sched_thread_func ::
  "int \<Rightarrow> (time_point \<times> sched_op list list \<times> stask list \<times> sched_op list \<times> bool) list \<Rightarrow>
     stask event list" where
  "sched_thread_func dmax [] = []"
| "sched_thread_func dmax ((now, env, q, gap, stopped) # obs) =
     (case run_passed_events now env q of
        (tr, q') \<Rightarrow>
          tr @ [Lock] @
          (if stopped then [Unlock]
           else [WaitUntil (next_in dmax (interfere gap q')), Wake, Unlock] @
                sched_thread_func dmax obs))"

section \<open>Thread pool\<close>

subsection \<open>State\<close>

text \<open>
  A worker owns a thread, the atomic \<open>m_stop_request\<close> flag and a shared state that its
  thread makes ready when it leaves \<open>thread_func\<close> (\<open>w_ready\<close>); \<open>w_joined\<close> records
  \<open>m_thread.join()\<close>. \<open>w_id\<close> names the object. An element of \<open>m_workers\<close> is a
  \<open>worker_ptr\<close>: \<open>None\<close> is the null pointer.

  A delayed-task bridge (\<open>delayed_task_continuation\<close>) is shared between the intrusive
  list \<open>m_delayed\<close> and the timer future that calls it, so the bridges live in a store
  (\<open>bridges\<close>, from the object's name to its fields) and \<open>m_delayed\<close> lists the names of
  the linked ones. Tasks of the pool are named by numbers.
\<close>

record worker =
  w_id :: nat
  m_stop_request :: bool
  w_ready :: bool
  w_joined :: bool

record bridge =
  m_task :: "nat option"
  m_marked :: bool

record pool =
  m_workers :: "worker option list"
  m_pending :: nat
  m_tasks :: "nat list"
  m_delayed :: "nat list"
  m_delayed_count :: nat
  bridges :: "nat \<rightharpoonup> bridge"
  next_wid :: nat

datatype future = Ready | WhenAll "nat list"

definition empty_pool :: pool where
  "empty_pool = \<lparr>m_workers = [], m_pending = 0, m_tasks = [], m_delayed = [],
     m_delayed_count = 0, bridges = Map.empty, next_wid = 0\<rparr>"

subsection \<open>Workers and resizing\<close>

definition new_worker :: "nat \<Rightarrow> worker" where
  "new_worker i = \<lparr>w_id = i, m_stop_request = False, w_ready = False, w_joined = False\<rparr>"

definition stop_request :: "worker \<Rightarrow> bool \<times> worker" where
  "stop_request w = (m_stop_request w, w\<lparr>m_stop_request := True\<rparr>)"

definition get_nworkers :: "pool \<Rightarrow> nat" where
  "get_nworkers p = m_pending p mod 2 ^ 32"

text \<open>
  Modelled from the spec: \<open>is_finished\<close>, which \<open>join_worker\<close> calls, is declared in a
  header that is not part of the sources at hand. A worker is finished when its
  completion future is ready, which is \<open>w_ready\<close> here.
\<close>

definition join_worker :: "worker \<Rightarrow> bool \<times> worker" where
  "join_worker w = (if w_ready w then (True, w\<lparr>w_joined := True\<rparr>) else (False, w))"

text \<open>
  \<open>std::remove_if(first, last, join_worker)\<close> on the range \<open>xs\<close>: the workers that are not
  finished move to the front in their order, and the result also gives their number (the
  returned iterator). Behind them the range is left as the library's loop leaves it: a
  pointer that was moved from is null, a joined worker that nothing overwrote stays.
  \<open>join_worker\<close> on a null pointer dereferences it.
\<close>

definition remove_if_join ::
  "worker option list \<Rightarrow> error + (worker option list \<times> nat)" where
  "remove_if_join xs =
     (if None \<in> set xs then Inl UndefinedBehaviour
      else let judged = map (\<lambda>x. join_worker (the x)) xs;
               kept = map (\<lambda>(r, w). Some w) (filter (\<lambda>(r, w). \<not> r) judged);
               rest = map (\<lambda>(r, w). if r then Some w else None) (drop (length kept) judged)
           in Inr (kept @ rest, length kept))"

definition resize :: "'a option list \<Rightarrow> nat \<Rightarrow> 'a option list" where
  "resize xs m = take m xs @ replicate (m - length xs) None"

text \<open>\<open>std::move(first, first + k, dest)\<close> on a vector of pointers, for \<open>dest\<close> outside the source range.\<close>

fun move_range :: "nat \<Rightarrow> nat \<Rightarrow> nat \<Rightarrow> 'a option list \<Rightarrow> 'a option list" where
  "move_range first 0 dest ws = ws"
| "move_range first (Suc k) dest ws =
     move_range (Suc first) k (Suc dest) (ws[dest := ws ! first, first := None])"

fun joined_ids :: "worker option list \<Rightarrow> nat list" where
  "joined_ids [] = []"
| "joined_ids (None # xs) = joined_ids xs"
| "joined_ids (Some w # xs) = (if w_ready w then w_id w # joined_ids xs else joined_ids xs)"

text \<open>
  The branch \<open>n > old_size - m_pending\<close> of \<open>set_nworkers\<close>. Positions in \<open>m_workers\<close> are
  indices: \<open>lo\<close> is \<open>last - m_pending\<close>, \<open>lo + kept\<close> the iterator that \<open>std::remove_if\<close>
  returns, and \<open>m_pending\<close> becomes the distance from there to \<open>last\<close>. An iterator formed
  outside the vector, a source range of \<open>std::move\<close> that leaves it and a destination
  inside the source range are undefined behaviour; the loop that creates the workers
  runs from \<open>first\<close> up to \<open>last\<close>, which the first test puts at or behind \<open>first\<close>.
\<close>

definition set_nworkers_grow :: "nat \<Rightarrow> pool \<Rightarrow> error + (pool \<times> future \<times> nat event list)" where
  "set_nworkers_grow n p =
     (let ws = m_workers p; old_size = length ws; lo = old_size - m_pending p in
      case remove_if_join (drop lo ws) of
        Inl e \<Rightarrow> Inl e
      | Inr (suffix, kept) \<Rightarrow>
          let pending' = old_size - (lo + kept);
              ws1 = resize (take lo ws @ suffix) (n + pending');
              first = old_size;
              last = length ws1 - pending'
          in if length ws1 < first + pending' then Inl UndefinedBehaviour
             else if 0 < pending' \<and> first \<le> last \<and> last < first + pending'
               then Inl UndefinedBehaviour
             else
               let ws2 = move_range first pending' last ws1;
                   fresh = map (\<lambda>i. Some (new_worker i)) [next_wid p ..< next_wid p + (last - first)];
                   ws3 = take first ws2 @ fresh @ drop last ws2
               in Inr (p\<lparr>m_workers := ws3, m_pending := pending',
                         next_wid := next_wid p + (last - first)\<rparr>,
                       Ready,
                       [Lock] @ map Join (joined_ids (drop lo ws)) @ [Unlock]))"

text \<open>
  The other branch: the workers at the positions from \<open>n\<close> up to the stopping suffix get
  their stop flag set and the returned future waits for them.
\<close>

definition set_nworkers_shrink :: "nat \<Rightarrow> pool \<Rightarrow> error + (pool \<times> future \<times> nat event list)" where
  "set_nworkers_shrink n p =
     (let ws = m_workers p; old_size = length ws;
          first = n;
          last = old_size - m_pending p;
          pending' = m_pending p + (old_size - n);
          marked = take (last - first) (drop first ws)
      in if None \<in> set marked then Inl UndefinedBehaviour
         else
           let stopped = map (\<lambda>x. Some (snd (stop_request (the x)))) marked;
               ids = map (\<lambda>x. w_id (the x)) marked
           in Inr (p\<lparr>m_workers := take first ws @ stopped @ drop last ws, m_pending := pending'\<rparr>,
                   WhenAll ids,
                   [Lock] @ map StopRequest ids @ [Unlock, NotifyAll]))"

text \<open>
  \<open>set_nworkers\<close>. With \<open>m_pending\<close> above the size of \<open>m_workers\<close> both branches form
  \<open>last - m_pending\<close> before \<open>begin()\<close>, whatever the comparison of the unsigned difference
  gives, so that case is undefined behaviour.
\<close>

definition set_nworkers :: "nat \<Rightarrow> pool \<Rightarrow> error + (pool \<times> future \<times> nat event list)" where
  "set_nworkers n p =
     (if n = m_pending p then Inr (p, Ready, [Lock, Unlock])
      else let old_size = length (m_workers p) in
        if old_size < m_pending p then Inl UndefinedBehaviour
        else if n > old_size - m_pending p then set_nworkers_grow n p
        else set_nworkers_shrink n p)"

definition thread_pool_ctor :: "nat \<Rightarrow> error + (pool \<times> future \<times> nat event list)" where
  "thread_pool_ctor nworkers = set_nworkers nworkers empty_pool"

text \<open>
  Waiting on a future returned by \<open>set_nworkers\<close>: the wait ends when the threads of the
  workers it names have left \<open>thread_func\<close> and made their shared state ready.
\<close>

definition future_wait :: "future \<Rightarrow> pool \<Rightarrow> pool" where
  "future_wait f p =
     (case f of
        Ready \<Rightarrow> p
      | WhenAll ids \<Rightarrow>
          p\<lparr>m_workers :=
              map (map_option (\<lambda>w. if w_id w \<in> set ids then w\<lparr>w_ready := True\<rparr> else w))
                (m_workers p)\<rparr>)"

definition stopping :: "pool \<Rightarrow> nat" where
  "stopping p = length (filter (\<lambda>x. case x of None \<Rightarrow> False | Some w \<Rightarrow> m_stop_request w) (m_workers p))"

text \<open>
  A worker thread. Each time the thread holds the mutex (after \<open>lk.lock()\<close>, or woken in
  \<open>m_event.wait\<close>) it reads its stop flag and the FIFO; what it finds there is decided by
  the other threads and is the input \<open>obs\<close>. When \<open>obs\<close> ends the thread is asleep or
  about to lock.
\<close>

datatype wpc = AtLock | InWait

fun thread_func :: "wpc \<Rightarrow> (bool \<times> nat list) list \<Rightarrow> nat event list" where
  "thread_func pc [] = []"
| "thread_func pc ((stop, tasks) # obs) =
     (if pc = AtLock then [Lock] else [Wake]) @
     (if stop then [Unlock]
      else case tasks of
             [] \<Rightarrow> Wait # thread_func InWait obs
           | t # ts \<Rightarrow> [Unlock, Execute t] @ thread_func AtLock obs)"

subsection \<open>Delayed-task bridge\<close>

text \<open>
  Modelled from the spec: \<open>mark_marked\<close> is declared in a header that is not part of the
  sources at hand. It is the compare-and-set of the bridge's marked latch from 0 to 1 and
  returns whether the caller claimed the bridge.
\<close>

definition mark_marked :: "bridge \<Rightarrow> bool \<times> bridge" where
  "mark_marked br = (if m_marked br then (False, br) else (True, br\<lparr>m_marked := True\<rparr>))"

text \<open>
  The block of \<open>continuate\<close> under \<open>m_owner->m_mutex\<close>, followed by \<open>release()\<close>. Erasing a
  bridge that is not linked in \<open>m_delayed\<close> and dereferencing a null \<open>m_task\<close> are
  undefined behaviour.
\<close>

definition continuate_locked :: "nat \<Rightarrow> pool \<Rightarrow> error + (pool \<times> nat event list)" where
  "continuate_locked b p =
     (case bridges p b of
        None \<Rightarrow> Inl UndefinedBehaviour
      | Some br \<Rightarrow>
          if b \<notin> set (m_delayed p) then Inl UndefinedBehaviour
          else case m_task br of
                 None \<Rightarrow> Inl UndefinedBehaviour
               | Some t \<Rightarrow>
                   let dc = m_delayed_count p;
                       dc' = (if dc = 0 then dc else dc - 1);
                       notify = (dc = 0 \<or> dc' = 0)
                   in Inr (p\<lparr>m_delayed := remove1 b (m_delayed p),
                             m_tasks := m_tasks p @ [t],
                             m_delayed_count := dc',
                             bridges := (bridges p)(b \<mapsto> br\<lparr>m_task := None\<rparr>)\<rparr>,
                           [Lock] @ (if notify then [NotifyOne] else []) @
                           [Unlock, ReleaseBridge b]))"

definition continuate :: "nat \<Rightarrow> pool \<Rightarrow> error + (pool \<times> nat event list)" where
  "continuate b p =
     (case bridges p b of
        None \<Rightarrow> Inl UndefinedBehaviour
      | Some br \<Rightarrow>
          let (claimed, br') = mark_marked br in
          if \<not> claimed then Inr (p, [])
          else continuate_locked b (p\<lparr>bridges := (bridges p)(b \<mapsto> br')\<rparr>))"

definition abandone :: "bridge \<Rightarrow> error + (bridge \<times> nat event list)" where
  "abandone br =
     (case m_task br of
        None \<Rightarrow> Inl UndefinedBehaviour
      | Some t \<Rightarrow> Inr (br\<lparr>m_task := None\<rparr>, [Abandon t]))"

subsection \<open>clear and the destructor\<close>

text \<open>The loop of \<open>clear\<close> over \<open>m_delayed\<close>, run with the mutex held.\<close>

fun clear_delayed :: "nat list \<Rightarrow> pool \<Rightarrow> error + (pool \<times> nat event list)" where
  "clear_delayed [] p = Inr (p, [])"
| "clear_delayed (b # bs) p =
     (case bridges p b of
        None \<Rightarrow> Inl UndefinedBehaviour
      | Some br \<Rightarrow>
          let (claimed, br') = mark_marked br in
          if \<not> claimed
          then clear_delayed bs (p\<lparr>m_delayed_count := m_delayed_count p + 1\<rparr>)
          else (case abandone br' of
                  Inl e \<Rightarrow> Inl e
                | Inr (br'', tr) \<Rightarrow>
                    (case clear_delayed bs
                            (p\<lparr>m_delayed := remove1 b (m_delayed p),
                               bridges := (bridges p)(b \<mapsto> br'')\<rparr>) of
                       Inl e \<Rightarrow> Inl e
                     | Inr (p', tr') \<Rightarrow> Inr (p', tr @ [ReleaseBridge b] @ tr'))))"

text \<open>
  A bridge is in flight when the timer future has claimed it (it is marked) and its
  continuation has not yet run its block under the mutex (it is still linked).
\<close>

definition in_flight :: "pool \<Rightarrow> nat \<Rightarrow> bool" where
  "in_flight p b =
     (b \<in> set (m_delayed p) \<and> (case bridges p b of None \<Rightarrow> False | Some br \<Rightarrow> m_marked br))"

text \<open>
  Modelled from the spec: \<open>submit\<close> and the delayed \<open>submit\<close> of the pool are declared in a
  header that is not part of the sources at hand. \<open>submit\<close> appends the task to \<open>m_tasks\<close>
  under the mutex; the delayed \<open>submit\<close> allocates a bridge that owns the task and links
  it into \<open>m_delayed\<close> (a name that is in use names no new bridge).
\<close>

definition submit :: "nat \<Rightarrow> pool \<Rightarrow> pool" where
  "submit t p = p\<lparr>m_tasks := m_tasks p @ [t]\<rparr>"

definition submit_delayed :: "nat \<Rightarrow> nat \<Rightarrow> pool \<Rightarrow> pool" where
  "submit_delayed b t p =
     (if bridges p b = None
      then p\<lparr>m_delayed := m_delayed p @ [b],
             bridges := (bridges p)(b \<mapsto> \<lparr>m_task = Some t, m_marked = False\<rparr>)\<rparr>
      else p)"

text \<open>
  What a running worker does to the pool in one round of \<open>thread_func\<close> when it gets the
  mutex: it takes the front of \<open>m_tasks\<close>, if there is one, and executes it on its own
  thread.
\<close>

definition worker_pop :: "pool \<Rightarrow> pool" where
  "worker_pop p = (case m_tasks p of [] \<Rightarrow> p | t # ts \<Rightarrow> p\<lparr>m_tasks := ts\<rparr>)"

text \<open>
  What the other threads can do to the pool while the thread of \<open>clear\<close> does not hold the
  mutex. \<open>Continue b\<close>: the timer thread of bridge \<open>b\<close> gets the mutex in \<open>continuate\<close> (for a
  bridge in flight this is the block under the mutex; for another bridge the whole of
  \<open>continuate\<close>, whose claim does not need the mutex; a name without a bridge does
  nothing). \<open>WorkerPop\<close>: a worker pops a task. \<open>Submit\<close> and \<open>SubmitDelayed\<close>: a caller
  submits. A second \<open>clear\<close> at the same time and \<open>set_nworkers\<close>, which touches the
  workers only, are left out.
\<close>

datatype pool_op =
    is_Continue: Continue nat
  | is_WorkerPop: WorkerPop
  | is_Submit: Submit nat
  | is_SubmitDelayed: SubmitDelayed nat nat

fun pool_step :: "pool_op \<Rightarrow> pool \<Rightarrow> error + pool" where
  "pool_step (Continue b) p =
     (if bridges p b = None then Inr p
      else case (if in_flight p b then continuate_locked b p else continuate b p) of
             Inl e \<Rightarrow> Inl e
           | Inr (p', tr) \<Rightarrow> Inr p')"
| "pool_step WorkerPop p = Inr (worker_pop p)"
| "pool_step (Submit t) p = Inr (submit t p)"
| "pool_step (SubmitDelayed b t) p = Inr (submit_delayed b t p)"

fun pool_steps :: "pool_op list \<Rightarrow> pool \<Rightarrow> error + pool" where
  "pool_steps [] p = Inr p"
| "pool_steps (op # ops) p =
     (case pool_step op p of Inl e \<Rightarrow> Inl e | Inr p' \<Rightarrow> pool_steps ops p')"

text \<open>
  \<open>m_event.wait(lk, [this] { return m_delayed_count == 0; })\<close>. The predicate is tested
  first, with the mutex held; while it is false \<open>clear\<close> sleeps, the mutex is free, and
  \<open>env\<close> lists what the other threads do with it, in order. The predicate is tested
  again after each of these steps, and the steps of \<open>env\<close> that are left when it holds do
  not happen before \<open>clear\<close> goes on. When \<open>env\<close> ends with the count still positive,
  \<open>clear\<close> stays blocked.
\<close>

fun wait_delayed :: "pool_op list \<Rightarrow> pool \<Rightarrow> error + (pool \<times> nat event list)" where
  "wait_delayed [] p = (if m_delayed_count p = 0 then Inr (p, []) else Inl Blocked)"
| "wait_delayed (op # env) p =
     (if m_delayed_count p = 0 then Inr (p, [])
      else case pool_step op p of
             Inl e \<Rightarrow> Inl e
           | Inr p' \<Rightarrow>
               (case wait_delayed env p' of
                  Inl e \<Rightarrow> Inl e
                | Inr (p'', tr) \<Rightarrow> Inr (p'', Wait # Wake # tr)))"

definition dispose :: "nat list \<Rightarrow> nat event list" where
  "dispose ts = concat (map (\<lambda>t. [Abandon t, Release t]) ts)"

text \<open>
  \<open>clear\<close>. After the wait it swaps \<open>m_tasks\<close> into a local list, releases the mutex and
  disposes of the local list. \<open>env\<close> is what the other threads do during the wait, \<open>late\<close>
  what they do between the release of the mutex and the return of \<open>clear\<close>; the pool of
  the result is the pool at the return. The \<open>assert\<close> at the start is taken as checked.
\<close>

definition clear ::
  "pool_op list \<Rightarrow> pool_op list \<Rightarrow> pool \<Rightarrow> error + (pool \<times> nat event list)" where
  "clear env late p =
     (if m_delayed_count p \<noteq> 0 then Inl AssertionFailed
      else case clear_delayed (m_delayed p) p of
             Inl e \<Rightarrow> Inl e
           | Inr (p1, tr1) \<Rightarrow>
               (case wait_delayed env p1 of
                  Inl e \<Rightarrow> Inl e
                | Inr (p2, tr2) \<Rightarrow>
                    (case pool_steps late (p2\<lparr>m_tasks := []\<rparr>) of
                       Inl e \<Rightarrow> Inl e
                     | Inr p3 \<Rightarrow>
                         Inr (p3, [Lock] @ tr1 @ tr2 @ [Unlock] @ dispose (m_tasks p2)))))"

text \<open>
  The destructor: the workers are swapped out under the mutex, told to stop, all waiters
  are woken, \<open>clear\<close> runs, and each worker is awaited and joined. The second component
  of the result is the local vector of workers at the end.
\<close>

definition pool_dtor ::
  "pool_op list \<Rightarrow> pool_op list \<Rightarrow> pool \<Rightarrow>
     error + (pool \<times> worker option list \<times> nat event list)" where
  "pool_dtor env late p =
     (let workers = m_workers p in
      if None \<in> set workers then Inl UndefinedBehaviour
      else case clear env late (p\<lparr>m_workers := []\<rparr>) of
             Inl e \<Rightarrow> Inl e
           | Inr (p', trc) \<Rightarrow>
               let ids = map (\<lambda>x. w_id (the x)) workers;
                   ended = map (map_option (\<lambda>w. w\<lparr>m_stop_request := True, w_ready := True,
                                                  w_joined := True\<rparr>)) workers
               in Inr (p', ended,
                       [Lock, Unlock] @ map StopRequest ids @ [NotifyAll] @ trc @
                       concat (map (\<lambda>i. [WaitWorker i, Join i]) ids)))"

section \<open>Notions used in the statements\<close>

text \<open>
  \<open>under_lock h es\<close> lists the \<open>Execute\<close> and \<open>Abandon\<close> events of \<open>es\<close> that happen
  while the thread holds the mutex (\<open>h\<close> says whether it holds it at the start), so
  \<open>outside_lock h es\<close> says that there is none.
\<close>

fun under_lock :: "bool \<Rightarrow> 't event list \<Rightarrow> 't event list" where
  "under_lock h [] = []"
| "under_lock h (Lock # es) = under_lock True es"
| "under_lock h (Wake # es) = under_lock True es"
| "under_lock h (Unlock # es) = under_lock False es"
| "under_lock h (Wait # es) = under_lock False es"
| "under_lock h (WaitUntil d # es) = under_lock False es"
| "under_lock h (Execute t # es) = (if h then Execute t # under_lock h es else under_lock h es)"
| "under_lock h (Abandon t # es) = (if h then Abandon t # under_lock h es else under_lock h es)"
| "under_lock h (e # es) = under_lock h es"

text \<open>The task a bridge owns and its latch, read through the store.\<close>

definition task_of :: "pool \<Rightarrow> nat \<Rightarrow> nat option" where
  "task_of p b = (case bridges p b of None \<Rightarrow> None | Some br \<Rightarrow> m_task br)"

definition marked :: "pool \<Rightarrow> nat \<Rightarrow> bool" where
  "marked p b = (case bridges p b of None \<Rightarrow> False | Some br \<Rightarrow> m_marked br)"

text \<open>
  What the loop of \<open>clear\<close> does for the bridges \<open>bs\<close> that nobody has claimed yet: the
  owned task is abandoned and the reference of the bridge dropped, bridge after bridge.
\<close>

definition abandon_part :: "pool \<Rightarrow> nat list \<Rightarrow> nat event list" where
  "abandon_part p bs =
     concat (map (\<lambda>b. [Abandon (the (task_of p b)), ReleaseBridge b]) (filter (\<lambda>b. \<not> marked p b) bs))"

text \<open>
  \<open>fresh_pool k\<close> is the pool as \<open>thread_pool(k)\<close> leaves it: \<open>k\<close> running workers and
  nothing else.
\<close>

definition fresh_pool :: "nat \<Rightarrow> pool" where
  "fresh_pool k = empty_pool\<lparr>m_workers := map (\<lambda>i. Some (new_worker i)) [0..<k], next_wid := k\<rparr>"

section \<open>Properties of the scheduler\<close>

subsection \<open>Traces and the queue\<close>

lemma executed_append: "executed (a @ b) = executed a @ executed b"
  by (induction a rule: executed.induct) auto



lemma mset_pop: "q \<noteq> [] \<Longrightarrow> add_mset (top q) (mset (pop q)) = mset q"
  by (simp add: pop_def top_in_set)

lemma interfere_Nil [simp]: "interfere [] q = q"
  by (simp add: interfere_def)


lemma rpe_stop:
  "q = [] \<or> now < point (top q) \<Longrightarrow> run_passed_events now env q = ([Lock, Unlock], q)"
  by (auto simp: run_passed_events.simps[of now env q])

lemma rpe_step:
  "q \<noteq> [] \<Longrightarrow> \<not> now < point (top q) \<Longrightarrow>
   run_passed_events now env q =
     (Lock # Unlock # Execute (top q) #
        fst (run_passed_events now (tl env) (interfere (first_ops env) (pop q))),
      snd (run_passed_events now (tl env) (interfere (first_ops env) (pop q))))"
  by (simp add: run_passed_events.simps[of now env q] split: prod.splits)






lemma rpe_outside: "outside_lock h (fst (run_passed_events now env q))"
proof (induction now env q arbitrary: h rule: run_passed_events.induct)
  case (1 now env q)
  show ?case
  proof (cases "q = [] \<or> now < point (top q)")
    case True
    then show ?thesis by (simp add: rpe_stop)
  next
    case False
    then have q: "q \<noteq> []" and t: "\<not> now < point (top q)" by auto
    from 1[OF q t] show ?thesis
      by (simp add: rpe_step[OF q t])
  qed
qed

lemma abandon_all_Nil: "abandon_all [] = []"
  by (simp add: abandon_all.simps[of "[]"])

lemma abandon_all_step: "q \<noteq> [] \<Longrightarrow> abandon_all q = Abandon (top q) # abandon_all (pop q)"
  by (simp add: abandon_all.simps[of q])

lemma abandon_all_mset: "\<exists>ts. abandon_all q = map Abandon ts \<and> mset ts = mset q"
proof (induction q rule: abandon_all.induct)
  case (1 q)
  show ?case
  proof (cases "q = []")
    case True
    then show ?thesis by (simp add: abandon_all_Nil)
  next
    case False
    from 1[OF False] obtain ts where ts: "abandon_all (pop q) = map Abandon ts" "mset ts = mset (pop q)" by blast
    with mset_pop[OF False] have "abandon_all q = map Abandon (top q # ts) \<and> mset (top q # ts) = mset q"
      by (simp add: abandon_all_step[OF False])
    then show ?thesis by blast
  qed
qed

subsection \<open>Deadlines and firing order\<close>





subsection \<open>The destructor\<close>

text \<open>
  Claim C8. The destructor of the scheduler takes the mutex, sets \<open>m_stopped\<close> and drains
  the queue, calling \<open>task_abandone\<close> once on each pending task (the abandoned tasks are
  the queue's tasks, each as often as it is queued); after releasing the mutex it
  notifies the condition variable and joins the thread, in this order, and the queue is
  left empty.
\<close>

theorem sched_dtor_abandons_all:
  "m_stopped (fst (sched_dtor s)) \<and> m_queue (fst (sched_dtor s)) = [] \<and>
   (\<exists>ts. snd (sched_dtor s) = [Lock] @ map Abandon ts @ [Unlock, NotifyOne, JoinThread] \<and>
         mset ts = mset (m_queue s))"
  using abandon_all_mset[of "m_queue s"] by (auto simp: sched_dtor_def)

theorem sched_dtor_abandons_all_witness:
  "snd (sched_dtor \<lparr>m_queue = [\<lparr>s_id = 1, point = 30\<rparr>, \<lparr>s_id = 2, point = 10\<rparr>], m_stopped = False\<rparr>) =
     [Lock, Abandon \<lparr>s_id = 2, point = 10\<rparr>, Abandon \<lparr>s_id = 1, point = 30\<rparr>,
      Unlock, NotifyOne, JoinThread] \<and>
   m_stopped (fst (sched_dtor \<lparr>m_queue = [\<lparr>s_id = 1, point = 30\<rparr>, \<lparr>s_id = 2, point = 10\<rparr>], m_stopped = False\<rparr>))"
  using sched_dtor_abandons_all[of "\<lparr>m_queue = [\<lparr>s_id = 1, point = 30\<rparr>, \<lparr>s_id = 2, point = 10\<rparr>], m_stopped = False\<rparr>"]
  by (simp add: sched_dtor_def abandon_all.simps pop_def entry_comparer_def)

subsection \<open>The sentinel\<close>

text \<open>
  Claim C9. On an empty queue the deadline that \<open>next_in\<close> gives to \<open>wait_until\<close> is
  \<open>max_timepoint\<close>, the time point whose tick count is the largest count of the clock's
  duration representation divided by two (\<open>duration::max().count() / 2\<close>); twice the
  sentinel still fits the representation.
\<close>

theorem next_in_empty_sentinel:
  "0 \<le> dmax \<Longrightarrow>
     next_in dmax [] = max_timepoint dmax \<and> max_timepoint dmax = dmax div 2 \<and>
     2 * max_timepoint dmax \<le> dmax"
  by (auto simp: next_in_def max_timepoint_def cpp_div_def sgn_if)

theorem next_in_empty_sentinel_witness:
  "(0::int) \<le> int64_max \<and> next_in int64_max [] = 4611686018427387903 \<and>
   max_timepoint int64_max = int64_max div 2"
  using next_in_empty_sentinel[of int64_max]
  by (simp add: int64_max_def)

section \<open>Properties of the thread pool\<close>

subsection \<open>The bridge continuation\<close>

text \<open>
  Claim C2. When the timer future completes, \<open>continuate\<close> first tries to claim the
  bridge by the compare-and-set of its marked latch. On a bridge that is already marked
  it returns at once: the pool is unchanged and the thread performs no effect. On a
  successful claim (the bridge is linked and owns a task) it takes the pool mutex,
  unlinks the bridge from \<open>m_delayed\<close>, appends the owned task to the back of \<open>m_tasks\<close>,
  decrements \<open>m_delayed_count\<close> if it is positive, and, when the count is zero
  afterwards, signals the event before it releases the mutex; it then drops the
  reference of the bridge.
\<close>

theorem continuate_contract:
  assumes "bridges p b = Some br"
  shows "(m_marked br \<longrightarrow> continuate b p = Inr (p, [])) \<and>
         (\<not> m_marked br \<and> b \<in> set (m_delayed p) \<and> m_task br = Some t \<longrightarrow>
            (\<exists>p'. continuate b p =
                     Inr (p', [Lock] @ (if m_delayed_count p' = 0 then [NotifyOne] else []) @
                              [Unlock, ReleaseBridge b]) \<and>
                  m_delayed p' = remove1 b (m_delayed p) \<and>
                  m_tasks p' = m_tasks p @ [t] \<and>
                  m_delayed_count p' =
                    (if 0 < m_delayed_count p then m_delayed_count p - 1 else m_delayed_count p) \<and>
                  bridges p' = (bridges p)(b \<mapsto> \<lparr>m_task = None, m_marked = True\<rparr>) \<and>
                  m_workers p' = m_workers p \<and> m_pending p' = m_pending p))"
  using assms
  by (auto simp: continuate_def continuate_locked_def mark_marked_def Let_def)

theorem continuate_contract_witness:
  "continuate 2 \<lparr>m_workers = [], m_pending = 0, m_tasks = [10], m_delayed = [1, 2],
       m_delayed_count = 0,
       bridges = [1 \<mapsto> \<lparr>m_task = Some 21, m_marked = False\<rparr>,
                  2 \<mapsto> \<lparr>m_task = None, m_marked = True\<rparr>], next_wid = 0\<rparr> =
     Inr (\<lparr>m_workers = [], m_pending = 0, m_tasks = [10], m_delayed = [1, 2],
       m_delayed_count = 0,
       bridges = [1 \<mapsto> \<lparr>m_task = Some 21, m_marked = False\<rparr>,
                  2 \<mapsto> \<lparr>m_task = None, m_marked = True\<rparr>], next_wid = 0\<rparr>, []) \<and>
   (\<exists>p'. continuate 1 \<lparr>m_workers = [], m_pending = 0, m_tasks = [10], m_delayed = [1, 2],
       m_delayed_count = 2,
       bridges = [1 \<mapsto> \<lparr>m_task = Some 21, m_marked = False\<rparr>,
                  2 \<mapsto> \<lparr>m_task = Some 22, m_marked = True\<rparr>], next_wid = 0\<rparr> =
        Inr (p', [Lock, Unlock, ReleaseBridge 1]) \<and>
      m_delayed p' = [2] \<and> m_tasks p' = [10, 21] \<and> m_delayed_count p' = 1)"
  using continuate_contract[of "\<lparr>m_workers = [], m_pending = 0, m_tasks = [10], m_delayed = [1, 2],
       m_delayed_count = 0,
       bridges = [1 \<mapsto> \<lparr>m_task = Some 21, m_marked = False\<rparr>,
                  2 \<mapsto> \<lparr>m_task = None, m_marked = True\<rparr>], next_wid = 0\<rparr>" 2
       "\<lparr>m_task = None, m_marked = True\<rparr>" 0]
    continuate_contract[of "\<lparr>m_workers = [], m_pending = 0, m_tasks = [10], m_delayed = [1, 2],
       m_delayed_count = 2,
       bridges = [1 \<mapsto> \<lparr>m_task = Some 21, m_marked = False\<rparr>,
                  2 \<mapsto> \<lparr>m_task = Some 22, m_marked = True\<rparr>], next_wid = 0\<rparr>" 1
       "\<lparr>m_task = Some 21, m_marked = False\<rparr>" 21]
  by auto

text \<open>
  Claim C10, as the code has it. On a successful promotion the continuation signals
  the event exactly when \<open>m_delayed_count\<close> was zero or one before: when the count drops
  to zero, and also when it is zero already, which is the case whenever no \<open>clear\<close> is
  waiting for bridges. In both cases the signal is sent with the mutex held, after the
  task has been put at the back of the FIFO. With a count of two or more the count is
  decremented and no signal is sent.
\<close>

theorem continuate_notifies_at_zero:
  assumes "bridges p b = Some br" and "\<not> m_marked br" and "b \<in> set (m_delayed p)"
    and "m_task br = Some t"
  shows "\<exists>p' tr. continuate b p = Inr (p', tr) \<and> m_tasks p' = m_tasks p @ [t] \<and>
           (NotifyOne \<in> set tr \<longleftrightarrow> m_delayed_count p = 0 \<or> m_delayed_count p = 1) \<and>
           (m_delayed_count p = 0 \<or> m_delayed_count p = 1 \<longrightarrow>
              tr = [Lock, NotifyOne, Unlock, ReleaseBridge b] \<and> m_delayed_count p' = 0)"
  using assms
  by (auto simp: continuate_def continuate_locked_def mark_marked_def Let_def)

theorem continuate_notifies_at_zero_witness:
  "\<exists>p'. continuate 1 \<lparr>m_workers = [], m_pending = 0, m_tasks = [10], m_delayed = [1],
       m_delayed_count = 0,
       bridges = [1 \<mapsto> \<lparr>m_task = Some 21, m_marked = False\<rparr>], next_wid = 0\<rparr> =
        Inr (p', [Lock, NotifyOne, Unlock, ReleaseBridge 1]) \<and>
      m_tasks p' = [10, 21] \<and> m_delayed_count p' = 0"
  using continuate_notifies_at_zero[of "\<lparr>m_workers = [], m_pending = 0, m_tasks = [10], m_delayed = [1],
       m_delayed_count = 0,
       bridges = [1 \<mapsto> \<lparr>m_task = Some 21, m_marked = False\<rparr>], next_wid = 0\<rparr>" 1
       "\<lparr>m_task = Some 21, m_marked = False\<rparr>" 21]
  by auto

text \<open>
  A successful promotion without a signal: the count is 2 before, the task is appended
  to the FIFO, the count becomes 1 and the trace has no \<open>NotifyOne\<close>, so no waiter is
  woken for the task.
\<close>

theorem continuate_silent_counterexample:
  "\<exists>p'. continuate 1 \<lparr>m_workers = [], m_pending = 0, m_tasks = [10], m_delayed = [1, 2, 3],
       m_delayed_count = 2,
       bridges = [1 \<mapsto> \<lparr>m_task = Some 21, m_marked = False\<rparr>,
                  2 \<mapsto> \<lparr>m_task = Some 22, m_marked = True\<rparr>,
                  3 \<mapsto> \<lparr>m_task = Some 23, m_marked = True\<rparr>], next_wid = 0\<rparr> =
        Inr (p', [Lock, Unlock, ReleaseBridge 1]) \<and>
      m_tasks p' = [10, 21] \<and> m_delayed_count p' = 1 \<and>
      NotifyOne \<notin> set [Lock, Unlock, ReleaseBridge 1 :: nat event]"
  by (simp add: continuate_def continuate_locked_def mark_marked_def Let_def)

subsection \<open>The worker count\<close>

lemmas pool_eval = thread_pool_ctor_def set_nworkers_def set_nworkers_grow_def set_nworkers_shrink_def
  remove_if_join_def resize_def empty_pool_def new_worker_def Let_def stop_request_def
  get_nworkers_def future_wait_def stopping_def join_worker_def fresh_pool_def upt_conv_Cons

lemma set_nworkers_same_pending:
  "set_nworkers (m_pending p) p = Inr (p, Ready, [Lock, Unlock])"
  by (simp add: set_nworkers_def)

lemma get_nworkers_pending: "m_pending p < 2 ^ 32 \<Longrightarrow> get_nworkers p = m_pending p"
  by (simp add: get_nworkers_def)

lemma set_nworkers_shrink_marks:
  assumes "m_pending p \<le> length (m_workers p)" "n \<le> length (m_workers p) - m_pending p" "n \<noteq> m_pending p"
    "None \<notin> set (m_workers p)"
  shows "\<exists>p' ids tr. set_nworkers n p = Inr (p', WhenAll ids, tr) \<and> length ids = length (m_workers p) - m_pending p - n
     \<and> m_pending p' = m_pending p + (length (m_workers p) - n)
     \<and> length (m_workers p') = length (m_workers p)"
  using assms
  apply (simp add: set_nworkers_def set_nworkers_shrink_def Let_def)
  apply (auto dest: in_set_takeD in_set_dropD)
  done

text \<open>
  Claim C1 says that \<open>get_nworkers\<close> returns the logical worker count, the size of
  \<open>m_workers\<close> less \<open>m_pending\<close>, and \<open>k\<close> after \<open>set_nworkers(k)\<close> and a wait on its
  future. The function returns \<open>m_pending\<close>, the length of the stopping suffix. On the
  pool that \<open>thread_pool(4)\<close> constructs, four workers run and none is stopping, and
  \<open>get_nworkers\<close> returns 0; after \<open>set_nworkers(3)\<close> and the wait on the returned future
  three workers remain, and \<open>get_nworkers\<close> returns 1.
\<close>

theorem get_nworkers_returns_pending:
  "thread_pool_ctor 4 = Inr (fresh_pool 4, Ready, [Lock, Unlock]) \<and>
   length (m_workers (fresh_pool 4)) - m_pending (fresh_pool 4) = 4 \<and>
   get_nworkers (fresh_pool 4) = 0 \<and>
   (\<exists>p f tr. set_nworkers 3 (fresh_pool 4) = Inr (p, f, tr) \<and> f = WhenAll [3] \<and>
      length (m_workers (future_wait f p)) - m_pending (future_wait f p) = 3 \<and>
      get_nworkers (future_wait f p) = 1)"
  by (simp add: pool_eval)

text \<open>
  Claim C6 says that \<open>set_nworkers(0)\<close> on a pool with a running worker sets every stop
  flag and returns a future that is ready once the workers have ended. The function
  first compares \<open>n\<close> with \<open>m_pending\<close> and returns a ready future when they are equal:
  on the pool of \<open>thread_pool(4)\<close>, with four running workers and \<open>m_pending = 0\<close>,
  \<open>set_nworkers(0)\<close> leaves the pool as it is, sets no stop flag and returns a ready
  future.
\<close>

theorem set_nworkers_zero_stops_nobody:
  "length (m_workers (fresh_pool 4)) - m_pending (fresh_pool 4) = 4 \<and>
   stopping (fresh_pool 4) = 0 \<and>
   set_nworkers 0 (fresh_pool 4) = Inr (fresh_pool 4, Ready, [Lock, Unlock])"
  by (simp add: pool_eval)

text \<open>
  Claim C5 says that a shrink by \<open>old - n\<close> workers sets that many stop flags and adds
  as much to \<open>m_pending\<close>, which then counts the workers with the flag set. The branch
  sets the flag of the workers between position \<open>n\<close> and the stopping suffix, which are
  \<open>old - n\<close>, and adds the size of \<open>m_workers\<close> less \<open>n\<close> to \<open>m_pending\<close>, which is more by
  the former \<open>m_pending\<close>. From \<open>thread_pool(4)\<close>, \<open>set_nworkers(3)\<close> gives four workers
  with one stopping and \<open>m_pending = 1\<close>; \<open>set_nworkers(2)\<close> then sets one more flag, so
  two workers have it, and leaves \<open>m_pending = 3\<close>.
\<close>

theorem set_nworkers_shrink_overcounts:
  "\<exists>p f tr p' f' tr'.
      set_nworkers 3 (fresh_pool 4) = Inr (p, f, tr) \<and>
      length (m_workers p) = 4 \<and> m_pending p = 1 \<and> stopping p = 1 \<and>
      set_nworkers 2 p = Inr (p', f', tr') \<and>
      f' = WhenAll [2] \<and> tr' = [Lock, StopRequest 2, Unlock, NotifyAll] \<and>
      stopping p' = 2 \<and> m_pending p' = 3"
  by (simp add: pool_eval)

subsection \<open>clear\<close>

lemma marked_dc [simp]: "marked (p\<lparr>m_delayed_count := x\<rparr>) = marked p"
  by (simp add: marked_def fun_eq_iff)

lemma task_of_dc [simp]: "task_of (p\<lparr>m_delayed_count := x\<rparr>) = task_of p"
  by (simp add: task_of_def fun_eq_iff)

lemma marked_upd:
  "marked (p\<lparr>m_delayed := L, bridges := (bridges p)(b \<mapsto> v)\<rparr>) x =
     (if x = b then m_marked v else marked p x)"
  by (simp add: marked_def)

lemma task_of_upd:
  "task_of (p\<lparr>m_delayed := L, bridges := (bridges p)(b \<mapsto> v)\<rparr>) x =
     (if x = b then m_task v else task_of p x)"
  by (simp add: task_of_def)

lemma clear_delayed_claimed:
  "bridges p b = Some br \<Longrightarrow> m_marked br \<Longrightarrow>
   clear_delayed (b # bs) p = clear_delayed bs (p\<lparr>m_delayed_count := m_delayed_count p + 1\<rparr>)"
  by (simp add: mark_marked_def del: One_nat_def)

lemma clear_delayed_unclaimed:
  "bridges p b = Some br \<Longrightarrow> \<not> m_marked br \<Longrightarrow> m_task br = Some t \<Longrightarrow>
   clear_delayed (b # bs) p =
     (case clear_delayed bs (p\<lparr>m_delayed := remove1 b (m_delayed p),
                               bridges := (bridges p)(b \<mapsto> br\<lparr>m_marked := True, m_task := None\<rparr>)\<rparr>) of
        Inl e \<Rightarrow> Inl e
      | Inr (p', tr') \<Rightarrow> Inr (p', Abandon t # ReleaseBridge b # tr'))"
  by (simp add: mark_marked_def abandone_def split: sum.splits)

lemma clear_delayed_cases:
  assumes "clear_delayed (b # bs) p = Inr r"
  obtains (claimed) br where "bridges p b = Some br" "m_marked br"
  | (unclaimed) br t where "bridges p b = Some br" "\<not> m_marked br" "m_task br = Some t"
  using assms
  by (auto simp: clear_delayed.simps(2) mark_marked_def abandone_def split: option.splits if_splits)

declare clear_delayed.simps(2) [simp del]

lemma clear_delayed_result:
  "clear_delayed bs p = Inr (p1, tr1) \<Longrightarrow> distinct bs \<Longrightarrow> distinct (m_delayed p) \<Longrightarrow>
   m_delayed p1 = filter (\<lambda>b. b \<notin> set bs \<or> marked p b) (m_delayed p) \<and>
   m_delayed_count p1 = m_delayed_count p + length (filter (marked p) bs) \<and>
   m_tasks p1 = m_tasks p \<and>
   tr1 = abandon_part p bs \<and>
   (\<forall>b. b \<notin> set bs \<longrightarrow> bridges p1 b = bridges p b) \<and>
   (\<forall>b \<in> set bs. marked p1 b \<and> task_of p1 b = (if marked p b then task_of p b else None) \<and>
        (\<not> marked p b \<longrightarrow> task_of p b \<noteq> None))"
proof (induction bs arbitrary: p p1 tr1)
  case Nil
  then show ?case by (simp add: abandon_part_def)
next
  case (Cons b bs)
  from Cons.prems(2) have nb: "b \<notin> set bs" and dbs: "distinct bs" by auto
  from Cons.prems(1) show ?case
  proof (cases rule: clear_delayed_cases)
    case (claimed br)
    let ?q = "p\<lparr>m_delayed_count := m_delayed_count p + 1\<rparr>"
    have mb: "marked p b" using claimed by (simp add: marked_def)
    from Cons.prems(1) claimed have rec: "clear_delayed bs ?q = Inr (p1, tr1)"
      by (simp add: clear_delayed_claimed)
    from Cons.IH[OF rec dbs] Cons.prems(3)
    have ih: "m_delayed p1 = filter (\<lambda>x. x \<notin> set bs \<or> marked p x) (m_delayed p)"
      "m_delayed_count p1 = m_delayed_count p + 1 + length (filter (marked p) bs)"
      "m_tasks p1 = m_tasks p" "tr1 = abandon_part p bs"
      "\<forall>x. x \<notin> set bs \<longrightarrow> bridges p1 x = bridges p x"
      "\<forall>x \<in> set bs. marked p1 x \<and> task_of p1 x = (if marked p x then task_of p x else None) \<and>
        (\<not> marked p x \<longrightarrow> task_of p x \<noteq> None)"
      by (simp_all add: abandon_part_def)
    have 1: "m_delayed p1 = filter (\<lambda>x. x \<notin> set (b # bs) \<or> marked p x) (m_delayed p)"
      unfolding ih(1) using mb by (intro filter_cong) auto
    have 5: "bridges p1 b = bridges p b" using ih(5) nb by simp
    then have 6: "marked p1 b \<and> task_of p1 b = task_of p b"
      using mb by (simp add: marked_def task_of_def)
    show ?thesis using 1 ih mb 6 by (simp add: abandon_part_def)
  next
    case (unclaimed br t)
    let ?q = "p\<lparr>m_delayed := remove1 b (m_delayed p),
                 bridges := (bridges p)(b \<mapsto> br\<lparr>m_marked := True, m_task := None\<rparr>)\<rparr>"
    have mb: "\<not> marked p b" and tb: "task_of p b = Some t"
      using unclaimed by (simp_all add: marked_def task_of_def)
    from Cons.prems(1) unclaimed obtain tr' where
      rec: "clear_delayed bs ?q = Inr (p1, tr')" and tr1: "tr1 = Abandon t # ReleaseBridge b # tr'"
      by (auto simp: clear_delayed_unclaimed split: sum.splits)
    have same: "\<And>x. x \<noteq> b \<Longrightarrow> marked ?q x = marked p x \<and> task_of ?q x = task_of p x"
      by (simp add: marked_def task_of_def)
    have same': "\<And>x L. x \<noteq> b \<Longrightarrow>
        marked (p\<lparr>m_delayed := L,
                 bridges := (bridges p)(b \<mapsto> br\<lparr>m_marked := True, m_task := None\<rparr>)\<rparr>) x = marked p x"
      by (simp add: marked_def)
    have dq: "distinct (m_delayed ?q)" using Cons.prems(3) by simp
    from Cons.IH[OF rec dbs dq]
    have ih: "m_delayed p1 = filter (\<lambda>x. x \<notin> set bs \<or> marked ?q x) (remove1 b (m_delayed p))"
      "m_delayed_count p1 = m_delayed_count p + length (filter (marked ?q) bs)"
      "m_tasks p1 = m_tasks p" "tr' = abandon_part ?q bs"
      "\<forall>x. x \<notin> set bs \<longrightarrow> bridges p1 x = bridges ?q x"
      "\<forall>x \<in> set bs. marked p1 x \<and> task_of p1 x = (if marked ?q x then task_of ?q x else None) \<and>
        (\<not> marked ?q x \<longrightarrow> task_of ?q x \<noteq> None)"
      by simp_all
    have rm: "remove1 b (m_delayed p) = filter ((\<noteq>) b) (m_delayed p)"
      using Cons.prems(3) by (simp add: distinct_remove1_removeAll removeAll_filter_not_eq) 
    have 1: "m_delayed p1 = filter (\<lambda>x. x \<notin> set (b # bs) \<or> marked p x) (m_delayed p)"
      unfolding ih(1) rm filter_filter using mb by (intro filter_cong) (auto simp: marked_upd)
    have 2: "filter (marked ?q) bs = filter (marked p) bs"
      using nb by (intro filter_cong) (auto simp: marked_upd task_of_upd)
    have 4: "abandon_part ?q bs = abandon_part p bs"
    proof -
      have a: "filter (\<lambda>x. \<not> marked ?q x) bs = filter (\<lambda>x. \<not> marked p x) bs"
        using nb by (intro filter_cong) (auto simp: marked_upd task_of_upd)
      have b: "map (\<lambda>x. [Abandon (the (task_of ?q x)), ReleaseBridge x]) (filter (\<lambda>x. \<not> marked p x) bs)
             = map (\<lambda>x. [Abandon (the (task_of p x)), ReleaseBridge x]) (filter (\<lambda>x. \<not> marked p x) bs)"
        using nb by (intro map_cong) (auto simp: marked_upd task_of_upd)
      show ?thesis unfolding abandon_part_def a b ..
    qed
    have 5: "bridges p1 b = Some (br\<lparr>m_marked := True, m_task := None\<rparr>)" using ih(5) nb by simp
    then have 6: "marked p1 b \<and> task_of p1 b = None" by (simp add: marked_def task_of_def)
    have 7: "\<forall>x. x \<notin> set (b # bs) \<longrightarrow> bridges p1 x = bridges p x" using ih(5) by simp
    have 8: "\<forall>x \<in> set bs. marked p1 x \<and> task_of p1 x = (if marked p x then task_of p x else None) \<and>
        (\<not> marked p x \<longrightarrow> task_of p x \<noteq> None)"
      using ih(6) nb by (auto simp: marked_upd task_of_upd)
    have 9: "tr1 = abandon_part p (b # bs)"
      using tr1 ih(4) 4 mb tb by (simp add: abandon_part_def)
    show ?thesis using 1 ih(2) 2 ih(3) 9 7 8 6 mb tb by simp
  qed
qed

lemma marked_bridges:
  "bridges p' = (bridges p)(b \<mapsto> v) \<Longrightarrow> marked p' x = (if x = b then m_marked v else marked p x)"
  by (simp add: marked_def)

lemma task_of_bridges:
  "bridges p' = (bridges p)(b \<mapsto> v) \<Longrightarrow> task_of p' x = (if x = b then m_task v else task_of p x)"
  by (simp add: task_of_def)

lemma continuate_locked_Inr:
  "continuate_locked b p = Inr (p', tr) \<Longrightarrow>
   \<exists>br t. bridges p b = Some br \<and> b \<in> set (m_delayed p) \<and> m_task br = Some t \<and>
     m_delayed p' = remove1 b (m_delayed p) \<and> m_tasks p' = m_tasks p @ [t] \<and>
     m_delayed_count p' = m_delayed_count p - 1 \<and>
     bridges p' = (bridges p)(b \<mapsto> br\<lparr>m_task := None\<rparr>)"
  by (auto simp: continuate_locked_def Let_def split: option.splits if_splits)


lemma continue_cases:
  assumes "pool_step (Continue c) p = Inr p'"
  shows "p' = p \<or>
     (\<exists>br' t. c \<in> set (m_delayed p) \<and> task_of p c = Some t \<and>
        m_delayed p' = remove1 c (m_delayed p) \<and> m_tasks p' = m_tasks p @ [t] \<and>
        m_delayed_count p' = m_delayed_count p - 1 \<and>
        bridges p' = (bridges p)(c \<mapsto> br') \<and> m_marked br' \<and> m_task br' = None)"
proof (cases "bridges p c")
  case None
  with assms show ?thesis by simp
next
  case (Some br)
  show ?thesis
  proof (cases "in_flight p c")
    case True
    with assms Some obtain tr where l: "continuate_locked c p = Inr (p', tr)"
      by (auto split: sum.splits)
    have mk: "m_marked br" using True Some by (simp add: in_flight_def)
    from continuate_locked_Inr[OF l] Some obtain t where
      f: "c \<in> set (m_delayed p)" "m_task br = Some t"
         "m_delayed p' = remove1 c (m_delayed p)" "m_tasks p' = m_tasks p @ [t]"
         "m_delayed_count p' = m_delayed_count p - 1"
         "bridges p' = (bridges p)(c \<mapsto> br\<lparr>m_task := None\<rparr>)"
      by auto
    have "task_of p c = Some t" using Some f(2) by (simp add: task_of_def)
    moreover have "m_marked (br\<lparr>m_task := None\<rparr>) \<and> m_task (br\<lparr>m_task := None\<rparr>) = None"
      using mk by simp
    ultimately show ?thesis using f by blast
  next
    case False
    with assms Some obtain tr where l: "continuate c p = Inr (p', tr)"
      by (auto split: sum.splits)
    show ?thesis
    proof (cases "m_marked br")
      case True
      with l Some show ?thesis by (simp add: continuate_def mark_marked_def)
    next
      case unm: False
      let ?q = "p\<lparr>bridges := (bridges p)(c \<mapsto> br\<lparr>m_marked := True\<rparr>)\<rparr>"
      from l Some unm have "continuate_locked c ?q = Inr (p', tr)"
        by (simp add: continuate_def mark_marked_def)
      from continuate_locked_Inr[OF this] obtain t where
        f: "c \<in> set (m_delayed p)" "m_task br = Some t"
           "m_delayed p' = remove1 c (m_delayed p)" "m_tasks p' = m_tasks p @ [t]"
           "m_delayed_count p' = m_delayed_count p - 1"
           "bridges p' = (bridges p)(c \<mapsto> br\<lparr>m_marked := True, m_task := None\<rparr>)"
        by auto
      have "task_of p c = Some t" using Some f(2) by (simp add: task_of_def)
      moreover have "m_marked (br\<lparr>m_marked := True, m_task := None\<rparr>) \<and>
          m_task (br\<lparr>m_marked := True, m_task := None\<rparr>) = None"
        by simp
      ultimately show ?thesis using f by blast
    qed
  qed
qed


lemma pool_step_frame:
  assumes "pool_step op p = Inr p'" and "marked p b" and "b \<notin> set (m_delayed p)"
  shows "bridges p' b = bridges p b \<and> b \<notin> set (m_delayed p')"
proof (cases op)
  case (Continue c)
  from continue_cases[of c p p'] assms(1) Continue
  consider "p' = p" | br' where "c \<in> set (m_delayed p)" "m_delayed p' = remove1 c (m_delayed p)"
      "bridges p' = (bridges p)(c \<mapsto> br')"
    by blast
  then show ?thesis
  proof cases
    case 1
    with assms show ?thesis by simp
  next
    case 2
    with assms(3) have "c \<noteq> b" by auto
    with 2 assms(3) show ?thesis by (auto dest: notin_set_remove1)
  qed
next
  case WorkerPop
  with assms show ?thesis by (auto simp: worker_pop_def split: list.splits)
next
  case (Submit t)
  with assms show ?thesis by (auto simp: submit_def)
next
  case (SubmitDelayed c t)
  from assms(2) have nb: "bridges p b \<noteq> None" by (auto simp: marked_def split: option.splits)
  show ?thesis
  proof (cases "bridges p c = None")
    case True
    with nb have "c \<noteq> b" by auto
    with True SubmitDelayed assms show ?thesis by (auto simp: submit_delayed_def)
  next
    case False
    with SubmitDelayed assms show ?thesis by (simp add: submit_delayed_def)
  qed
qed



lemma marked_frame: "bridges p' b = bridges p b \<Longrightarrow> marked p' b = marked p b \<and> task_of p' b = task_of p b"
  by (simp add: marked_def task_of_def)


lemma wait_delayed_general:
  "wait_delayed env p = Inr (p2, tr2) \<Longrightarrow>
   m_delayed_count p2 = 0 \<and> (\<exists>k. tr2 = concat (replicate k [Wait, Wake])) \<and>
   (m_delayed_count p = 0 \<longrightarrow> p2 = p \<and> tr2 = []) \<and>
   (\<forall>b. marked p b \<and> b \<notin> set (m_delayed p) \<longrightarrow>
        bridges p2 b = bridges p b \<and> b \<notin> set (m_delayed p2))"
proof (induction env arbitrary: p p2 tr2)
  case Nil
  then show ?case by (auto split: if_splits intro: exI[of _ "0::nat"])
next
  case (Cons op env)
  show ?case
  proof (cases "m_delayed_count p = 0")
    case True
    with Cons.prems show ?thesis by (auto intro: exI[of _ "0::nat"])
  next
    case False
    with Cons.prems obtain q tr where s: "pool_step op p = Inr q" and
      r: "wait_delayed env q = Inr (p2, tr)" and tr2: "tr2 = Wait # Wake # tr"
      by (auto split: sum.splits)
    from Cons.IH[OF r] obtain k where
      ih: "m_delayed_count p2 = 0" "tr = concat (replicate k [Wait, Wake])"
          "\<forall>b. marked q b \<and> b \<notin> set (m_delayed q) \<longrightarrow>
              bridges p2 b = bridges q b \<and> b \<notin> set (m_delayed p2)"
      by blast
    have k: "tr2 = concat (replicate (Suc k) [Wait, Wake])" using tr2 ih(2) by simp
    have fr: "\<forall>b. marked p b \<and> b \<notin> set (m_delayed p) \<longrightarrow>
        bridges p2 b = bridges p b \<and> b \<notin> set (m_delayed p2)"
    proof (intro allI impI)
      fix b assume b: "marked p b \<and> b \<notin> set (m_delayed p)"
      with pool_step_frame[OF s, of b] have f: "bridges q b = bridges p b" "b \<notin> set (m_delayed q)"
        by auto
      with b marked_frame[OF f(1)] have "marked q b \<and> b \<notin> set (m_delayed q)" by simp
      with ih(3) f show "bridges p2 b = bridges p b \<and> b \<notin> set (m_delayed p2)" by auto
    qed
    from ih(1) k fr False show ?thesis by blast
  qed
qed







lemma clear_structure:
  assumes "clear env late p = Inr (p', tr)" and "distinct (m_delayed p)"
  shows "\<exists>p1 p2 k. m_delayed_count p = 0 \<and>
     clear_delayed (m_delayed p) p = Inr (p1, abandon_part p (m_delayed p)) \<and>
     wait_delayed env p1 = Inr (p2, concat (replicate k [Wait, Wake])) \<and>
     pool_steps late (p2\<lparr>m_tasks := []\<rparr>) = Inr p' \<and>
     tr = [Lock] @ abandon_part p (m_delayed p) @ concat (replicate k [Wait, Wake]) @
          [Unlock] @ dispose (m_tasks p2)"
proof -
  from assms(1) obtain p1 tr1 p2 tr2 where
    dc: "m_delayed_count p = 0" and
    ph1: "clear_delayed (m_delayed p) p = Inr (p1, tr1)" and
    ph2: "wait_delayed env p1 = Inr (p2, tr2)" and
    ph3: "pool_steps late (p2\<lparr>m_tasks := []\<rparr>) = Inr p'" and
    tr: "tr = [Lock] @ tr1 @ tr2 @ [Unlock] @ dispose (m_tasks p2)"
    by (auto simp: clear_def split: if_splits sum.splits)
  from clear_delayed_result[OF ph1 assms(2) assms(2)]
  have tr1: "tr1 = abandon_part p (m_delayed p)" by blast
  from wait_delayed_general[OF ph2] obtain k where "tr2 = concat (replicate k [Wait, Wake])"
    by blast
  with dc ph1 ph2 ph3 tr tr1 show ?thesis by blast
qed

lemma clear_first_phase:
  assumes "clear_delayed (m_delayed p) p = Inr (p1, tr1)" and "distinct (m_delayed p)"
    and "m_delayed_count p = 0"
  shows "m_delayed p1 = filter (marked p) (m_delayed p)"
    and "distinct (m_delayed p1)"
    and "m_delayed_count p1 = length (m_delayed p1)"
    and "\<forall>b \<in> set (m_delayed p1). marked p1 b"
    and "m_tasks p1 = m_tasks p"
    and "\<forall>b \<in> set (m_delayed p). marked p1 b \<and>
        task_of p1 b = (if marked p b then task_of p b else None) \<and>
        (\<not> marked p b \<longrightarrow> task_of p b \<noteq> None)"
proof -
  from clear_delayed_result[OF assms(1,2,2)]
  have a: "m_delayed p1 = filter (\<lambda>b. b \<notin> set (m_delayed p) \<or> marked p b) (m_delayed p)"
    "m_delayed_count p1 = m_delayed_count p + length (filter (marked p) (m_delayed p))"
    "m_tasks p1 = m_tasks p"
    "\<forall>b \<in> set (m_delayed p). marked p1 b \<and>
        task_of p1 b = (if marked p b then task_of p b else None) \<and>
        (\<not> marked p b \<longrightarrow> task_of p b \<noteq> None)"
    by blast+
  show l1: "m_delayed p1 = filter (marked p) (m_delayed p)"
    unfolding a(1) by (intro filter_cong) auto
  show "distinct (m_delayed p1)" using assms(2) l1 by simp
  show "m_delayed_count p1 = length (m_delayed p1)" using a(2) assms(3) l1 by simp
  show "\<forall>b \<in> set (m_delayed p1). marked p1 b" using a(4) l1 by auto
  show "m_tasks p1 = m_tasks p" by (rule a(3))
  show "\<forall>b \<in> set (m_delayed p). marked p1 b \<and>
        task_of p1 b = (if marked p b then task_of p b else None) \<and>
        (\<not> marked p b \<longrightarrow> task_of p b \<noteq> None)" by (rule a(4))
qed

lemma clear_delayed_returns:
  "\<forall>b \<in> set bs. task_of p b \<noteq> None \<Longrightarrow> distinct bs \<Longrightarrow> \<exists>p1 tr1. clear_delayed bs p = Inr (p1, tr1)"
proof (induction bs arbitrary: p)
  case Nil
  then show ?case by simp
next
  case (Cons b bs)
  from Cons.prems(1) obtain br t where br: "bridges p b = Some br" "m_task br = Some t"
    by (auto simp: task_of_def split: option.splits)
  from Cons.prems(2) have nb: "b \<notin> set bs" and dbs: "distinct bs" by auto
  show ?case
  proof (cases "m_marked br")
    case True
    have "\<forall>x \<in> set bs. task_of (p\<lparr>m_delayed_count := m_delayed_count p + 1\<rparr>) x \<noteq> None"
      using Cons.prems(1) by simp
    from Cons.IH[OF this dbs] show ?thesis
      by (simp add: clear_delayed_claimed[OF br(1) True])
  next
    case False
    let ?q = "p\<lparr>m_delayed := remove1 b (m_delayed p),
                 bridges := (bridges p)(b \<mapsto> br\<lparr>m_marked := True, m_task := None\<rparr>)\<rparr>"
    have "\<forall>x \<in> set bs. task_of ?q x \<noteq> None"
      using Cons.prems(1) nb by (auto simp: task_of_upd)
    from Cons.IH[OF this dbs] show ?thesis
      by (auto simp: clear_delayed_unclaimed[OF br(1) False br(2)])
  qed
qed

lemma wait_delayed_returns:
  "distinct (m_delayed p) \<Longrightarrow> m_delayed_count p = length (m_delayed p) \<Longrightarrow>
   \<forall>b \<in> set (m_delayed p). task_of p b \<noteq> None \<Longrightarrow>
   set (m_delayed p) \<subseteq> set bs \<Longrightarrow> \<forall>c \<in> set bs. marked p c \<Longrightarrow>
   \<exists>p2 tr2. wait_delayed (map Continue bs) p = Inr (p2, tr2)"
proof (induction bs arbitrary: p)
  case Nil
  then show ?case by simp
next
  case (Cons c bs)
  show ?case
  proof (cases "m_delayed_count p = 0")
    case True
    then show ?thesis by simp
  next
    case dc: False
    from Cons.prems(5) have mc: "marked p c" by simp
    then obtain br where br: "bridges p c = Some br" "m_marked br"
      by (auto simp: marked_def split: option.splits)
    show ?thesis
    proof (cases "c \<in> set (m_delayed p)")
      case False
      then have nf: "\<not> in_flight p c" by (simp add: in_flight_def)
      have "continuate c p = Inr (p, [])" using br by (simp add: continuate_def mark_marked_def)
      with nf br have s: "pool_step (Continue c) p = Inr p" by simp
      have "set (m_delayed p) \<subseteq> set bs" using Cons.prems(4) False by auto
      from Cons.IH[OF Cons.prems(1,2,3) this] Cons.prems(5) dc s show ?thesis by auto
    next
      case True
      then have fl: "in_flight p c" using br by (simp add: in_flight_def)
      from Cons.prems(3) True obtain t where t: "m_task br = Some t"
        using br by (auto simp: task_of_def)
      obtain q tr where l: "continuate_locked c p = Inr (q, tr)"
        using br True t by (simp add: continuate_locked_def Let_def)
      with fl br have s: "pool_step (Continue c) p = Inr q" by simp
      from continuate_locked_Inr[OF l] br have
        f: "m_delayed q = remove1 c (m_delayed p)"
           "m_delayed_count q = m_delayed_count p - 1"
           "bridges q = (bridges p)(c \<mapsto> br\<lparr>m_task := None\<rparr>)"
        by auto
      have d': "distinct (m_delayed q)" using Cons.prems(1) f(1) by simp
      have c': "m_delayed_count q = length (m_delayed q)"
        using Cons.prems(2) True f(1,2) by (simp add: length_remove1)
      have t': "\<forall>x \<in> set (m_delayed q). task_of q x \<noteq> None"
        using Cons.prems(1,3) f(1) by (auto simp: task_of_bridges[OF f(3)])
      have e': "set (m_delayed q) \<subseteq> set bs" using Cons.prems(1,4) f(1) by auto
      have m': "\<forall>x \<in> set bs. marked q x"
        using Cons.prems(5) br(2) by (auto simp: marked_bridges[OF f(3)])
      from Cons.IH[OF d' c' t' e' m'] dc s show ?thesis by auto
    qed
  qed
qed

lemma clear_returns:
  assumes "m_delayed_count p = 0" and "distinct (m_delayed p)"
    and "\<forall>b \<in> set (m_delayed p). task_of p b \<noteq> None"
    and "set bs = set (filter (marked p) (m_delayed p))"
  shows "\<exists>p' tr. clear (map Continue bs) [] p = Inr (p', tr)"
proof -
  from clear_delayed_returns[OF assms(3,2)] obtain p1 tr1 where
    ph1: "clear_delayed (m_delayed p) p = Inr (p1, tr1)" by blast
  note a = clear_first_phase[OF ph1 assms(2,1)]
  have t1: "\<forall>b \<in> set (m_delayed p1). task_of p1 b \<noteq> None"
    using a(1,6) assms(3) by auto
  have e1: "set (m_delayed p1) \<subseteq> set bs" using assms(4) a(1) by simp
  have m1: "\<forall>c \<in> set bs. marked p1 c" using assms(4) a(6) by auto
  from wait_delayed_returns[OF a(2,3) t1 e1 m1] obtain p2 tr2 where
    "wait_delayed (map Continue bs) p1 = Inr (p2, tr2)" by blast
  with ph1 assms(1) show ?thesis by (simp add: clear_def)
qed



lemma worker_pop_thread_func:
  "m_tasks p = t # ts \<Longrightarrow>
   thread_func AtLock [(False, m_tasks p)] = [Lock, Unlock, Execute t] \<and> m_tasks (worker_pop p) = ts"
  by (simp add: worker_pop_def)


lemmas clear_eval = clear_def continuate_locked_def continuate_def mark_marked_def abandone_def
  in_flight_def dispose_def Let_def clear_delayed.simps(2) task_of_def marked_def abandon_part_def
  worker_pop_def submit_def submit_delayed_def



section \<open>User callbacks and the engine mutex\<close>

lemma outside_lock_iff: "outside_lock h es \<longleftrightarrow> under_lock h es = []"
  by (induction h es rule: outside_lock.induct) auto

lemma under_lock_thread_func: "under_lock h (thread_func pc obs) = []"
proof (induction obs arbitrary: h pc)
  case Nil
  then show ?case by simp
next
  case (Cons o1 obs)
  obtain stop tasks where o1: "o1 = (stop, tasks)" by (cases o1)
  show ?case using Cons.IH by (cases tasks) (auto simp: o1)
qed

lemma under_lock_rpe:
  "under_lock h (fst (run_passed_events now env q) @ rest) = under_lock False rest"
proof (induction now env q arbitrary: h rule: run_passed_events.induct)
  case (1 now env q)
  show ?case
  proof (cases "q = [] \<or> now < point (top q)")
    case True
    then show ?thesis by (simp add: rpe_stop)
  next
    case False
    then have q: "q \<noteq> []" and t: "\<not> now < point (top q)" by auto
    from 1[OF q t] show ?thesis
      by (simp add: rpe_step[OF q t])
  qed
qed

lemma under_lock_sched_thread_func: "under_lock h (sched_thread_func dmax obs) = []"
proof (induction obs arbitrary: h)
  case Nil
  then show ?case by simp
next
  case (Cons o1 obs)
  obtain now env q gap stopped where o1: "o1 = (now, env, q, gap, stopped)" by (cases o1)
  obtain tr q' where r: "run_passed_events now env q = (tr, q')"
    by (cases "run_passed_events now env q")
  have "under_lock h (tr @ rest) = under_lock False rest" for rest
    using under_lock_rpe[of h now env q rest] r by simp
  then show ?case using Cons.IH by (simp add: o1 r)
qed

lemma under_lock_abandons:
  "under_lock h (map Abandon ts @ rest) =
     (if h then map Abandon ts @ under_lock h rest else under_lock h rest)"
  by (induction ts) auto

lemma under_lock_abandon_part:
  "under_lock True (abandon_part p bs @ rest) =
     map (\<lambda>b. Abandon (the (task_of p b))) (filter (\<lambda>b. \<not> marked p b) bs) @ under_lock True rest"
  by (induction bs) (auto simp: abandon_part_def)

lemma under_lock_waits:
  "under_lock True (concat (replicate k [Wait, Wake]) @ rest) = under_lock True rest"
  by (induction k) auto

lemma under_lock_dispose: "under_lock False (dispose ts @ rest) = under_lock False rest"
  by (induction ts) (auto simp: dispose_def)

lemma under_lock_stop_requests:
  "under_lock h (map StopRequest ids @ rest) = under_lock h rest"
  by (induction ids) auto

lemma under_lock_joins:
  "under_lock h (concat (map (\<lambda>i. [WaitWorker i, Join i]) ids)) = []"
  by (induction ids) auto

lemma under_lock_clear:
  assumes "clear env late p = Inr (p', tr)" and "distinct (m_delayed p)"
  shows "under_lock h (tr @ rest) =
     map (\<lambda>b. Abandon (the (task_of p b))) (filter (\<lambda>b. \<not> marked p b) (m_delayed p)) @
     under_lock False rest"
proof -
  from clear_structure[OF assms] obtain p1 p2 k where
    "m_delayed_count p = 0"
    "clear_delayed (m_delayed p) p = Inr (p1, abandon_part p (m_delayed p))"
    "wait_delayed env p1 = Inr (p2, concat (replicate k [Wait, Wake]))"
    "pool_steps late (p2\<lparr>m_tasks := []\<rparr>) = Inr p'"
    "tr = [Lock] @ abandon_part p (m_delayed p) @ concat (replicate k [Wait, Wake]) @
                 [Unlock] @ dispose (m_tasks p2)"
    by blast
  then show ?thesis
    by (simp add: under_lock_abandon_part under_lock_waits under_lock_dispose)
qed

lemma under_lock_pool_dtor:
  assumes "pool_dtor env late p = Inr (p', ws, tr)" and "distinct (m_delayed p)"
  shows "under_lock False tr =
     map (\<lambda>b. Abandon (the (task_of p b))) (filter (\<lambda>b. \<not> marked p b) (m_delayed p))"
proof -
  let ?q = "p\<lparr>m_workers := []\<rparr>"
  define ids where "ids = map (\<lambda>x. w_id (the x)) (m_workers p)"
  from assms(1) obtain trc where
    c: "clear env late ?q = Inr (p', trc)" and
    tr: "tr = [Lock, Unlock] @ map StopRequest ids @ [NotifyAll] @
              trc @ concat (map (\<lambda>i. [WaitWorker i, Join i]) ids)"
    unfolding ids_def
    by (auto simp: pool_dtor_def Let_def simp del: map_map split: if_splits sum.splits)
  have d: "distinct (m_delayed ?q)" using assms(2) by simp
  have same: "task_of ?q = task_of p" "marked ?q = marked p"
    by (simp_all add: task_of_def marked_def fun_eq_iff)
  have "under_lock False tr =
        under_lock False (trc @ concat (map (\<lambda>i. [WaitWorker i, Join i]) ids))"
    unfolding tr by (simp add: under_lock_stop_requests)
  also have "\<dots> =
      map (\<lambda>b. Abandon (the (task_of ?q b))) (filter (\<lambda>b. \<not> marked ?q b) (m_delayed ?q)) @
      under_lock False (concat (map (\<lambda>i. [WaitWorker i, Join i]) ids))"
    by (rule under_lock_clear[OF c d])
  finally show ?thesis by (simp add: same under_lock_joins)
qed

lemma under_lock_sched_clear: "under_lock False (snd (sched_clear s)) = []"
proof -
  obtain ts where "abandon_all (m_queue s) = map Abandon ts"
    using abandon_all_mset[of "m_queue s"] by blast
  then show ?thesis by (simp add: sched_clear_def under_lock_abandons)
qed

lemma under_lock_sched_dtor: "under_lock False (snd (sched_dtor s)) = abandon_all (m_queue s)"
proof -
  obtain ts where "abandon_all (m_queue s) = map Abandon ts"
    using abandon_all_mset[of "m_queue s"] by blast
  then show ?thesis by (simp add: sched_dtor_def under_lock_abandons)
qed

text \<open>
  Claim C4, as the code has it. A worker thread and the scheduler thread call
  \<open>task_execute\<close> only with the mutex released, and so does no operation call it with the
  mutex held; \<open>clear\<close> of the scheduler abandons the tasks it moved out with the mutex
  released. The destructor of the scheduler abandons every queued task while it holds
  the mutex. \<open>clear\<close> of the pool, and through it the destructor of the pool, abandons
  under the mutex exactly the tasks of the delayed bridges it claims itself; the tasks of
  the FIFO are abandoned after the mutex is released.
\<close>

theorem callbacks_and_the_mutex:
  "under_lock False (thread_func AtLock obs) = [] \<and>
   under_lock False (sched_thread_func dmax sobs) = [] \<and>
   under_lock False (snd (sched_clear s)) = [] \<and>
   under_lock False (snd (sched_dtor s)) = abandon_all (m_queue s) \<and>
   (clear env late p = Inr (p', tr) \<and> distinct (m_delayed p) \<longrightarrow>
      under_lock False tr =
        map (\<lambda>b. Abandon (the (task_of p b))) (filter (\<lambda>b. \<not> marked p b) (m_delayed p))) \<and>
   (pool_dtor env late p = Inr (p'', ws, tr') \<and> distinct (m_delayed p) \<longrightarrow>
      under_lock False tr' =
        map (\<lambda>b. Abandon (the (task_of p b))) (filter (\<lambda>b. \<not> marked p b) (m_delayed p)))"
  using under_lock_thread_func[of False AtLock obs] under_lock_sched_thread_func[of False dmax sobs]
    under_lock_sched_clear[of s] under_lock_sched_dtor[of s]
    under_lock_clear[of env late p p' tr False "[]"] under_lock_pool_dtor[of env late p p'' ws tr']
  by simp

theorem callbacks_and_the_mutex_witness:
  "under_lock False (thread_func AtLock [(False, []), (False, [1, 2]), (True, [2])]) = [] \<and>
   under_lock False (snd (sched_dtor \<lparr>m_queue = [\<lparr>s_id = 1, point = 30\<rparr>], m_stopped = False\<rparr>)) =
     [Abandon \<lparr>s_id = 1, point = 30\<rparr>] \<and>
   (\<exists>p' tr. clear [] [] \<lparr>m_workers = [Some (new_worker 0)], m_pending = 0, m_tasks = [10],
        m_delayed = [1], m_delayed_count = 0,
        bridges = [1 \<mapsto> \<lparr>m_task = Some 21, m_marked = False\<rparr>], next_wid = 1\<rparr> = Inr (p', tr) \<and>
      tr = [Lock, Abandon 21, ReleaseBridge 1, Unlock, Abandon 10, Release 10] \<and>
      under_lock False tr = [Abandon 21]) \<and>
   (\<exists>p' ws tr. pool_dtor [] [] \<lparr>m_workers = [Some (new_worker 0)], m_pending = 0, m_tasks = [10],
        m_delayed = [1], m_delayed_count = 0,
        bridges = [1 \<mapsto> \<lparr>m_task = Some 21, m_marked = False\<rparr>], next_wid = 1\<rparr> = Inr (p', ws, tr) \<and>
      tr = [Lock, Unlock, StopRequest 0, NotifyAll, Lock, Abandon 21, ReleaseBridge 1, Unlock,
            Abandon 10, Release 10, WaitWorker 0, Join 0] \<and>
      under_lock False tr = [Abandon 21])"
proof -
  let ?p = "\<lparr>m_workers = [Some (new_worker 0)], m_pending = 0, m_tasks = [10],
        m_delayed = [1], m_delayed_count = 0,
        bridges = [1 \<mapsto> \<lparr>m_task = Some (21::nat), m_marked = False\<rparr>], next_wid = 1\<rparr>"
  let ?s = "\<lparr>m_queue = [\<lparr>s_id = 1, point = 30\<rparr>], m_stopped = False\<rparr>"
  obtain p' where c: "clear [] [] ?p =
      Inr (p', [Lock, Abandon 21, ReleaseBridge 1, Unlock, Abandon 10, Release 10])"
    by (simp add: clear_eval)
  obtain p'' ws where d: "pool_dtor [] [] ?p =
      Inr (p'', ws, [Lock, Unlock, StopRequest 0, NotifyAll, Lock, Abandon 21, ReleaseBridge 1, Unlock,
            Abandon 10, Release 10, WaitWorker 0, Join 0])"
    by (simp add: pool_dtor_def clear_eval new_worker_def)
  have dist: "distinct (m_delayed ?p)" by simp
  from callbacks_and_the_mutex[of "[(False, []), (False, [1, 2]), (True, [2])]" 0 "[]" ?s "[]" "[]" ?p
      p' "[Lock, Abandon 21, ReleaseBridge 1, Unlock, Abandon 10, Release 10]" p'' ws
      "[Lock, Unlock, StopRequest 0, NotifyAll, Lock, Abandon 21, ReleaseBridge 1, Unlock,
            Abandon 10, Release 10, WaitWorker 0, Join 0]"] c d dist
  show ?thesis
    by (simp add: abandon_all.simps pop_def)
qed

text \<open>
  The two places where \<open>task_abandone\<close> runs under the mutex: the destructor of the
  scheduler with one queued task, and \<open>clear\<close> of the pool with one delayed bridge that
  nobody has claimed.
\<close>

theorem callbacks_under_the_mutex_counterexample:
  "\<not> outside_lock False (snd (sched_dtor \<lparr>m_queue = [\<lparr>s_id = 1, point = 30\<rparr>], m_stopped = False\<rparr>)) \<and>
   (\<exists>p' tr. clear [] [] \<lparr>m_workers = [], m_pending = 0, m_tasks = [10], m_delayed = [1],
        m_delayed_count = 0,
        bridges = [1 \<mapsto> \<lparr>m_task = Some 21, m_marked = False\<rparr>], next_wid = 0\<rparr> = Inr (p', tr) \<and>
      \<not> outside_lock False tr)"
  by (simp add: sched_dtor_def abandon_all.simps pop_def clear_eval)

end
